theory Spec2Isabelle
  imports Main
begin

section \<open>JavaScript values shared by the models\<close>

text \<open>
  A value that may be \<open>undefined\<close> or \<open>null\<close>. The operators \<open>??\<close> and \<open>||\<close> and the
  truthiness test of \<open>if\<close> are written out on it.
\<close>

datatype 'a nullable = Undefined | Null | Val 'a

text \<open>A thrown value: an \<open>Error\<close> instance with its message, or anything else.\<close>

datatype js_exn = Error string | Thrown

fun coalesce :: "'a nullable \<Rightarrow> 'a \<Rightarrow> 'a" where
  "coalesce (Val x) d = x"
| "coalesce _ d = d"

fun truthy_str :: "string nullable \<Rightarrow> bool" where
  "truthy_str (Val s) = (s \<noteq> [])"
| "truthy_str _ = False"

fun or_str :: "string nullable \<Rightarrow> string \<Rightarrow> string" where
  "or_str (Val s) d = (if s = [] then d else s)"
| "or_str _ d = d"

text \<open>\<open>err instanceof Error ? err.message : fallback\<close>\<close>

fun message_or :: "js_exn \<Rightarrow> string \<Rightarrow> string" where
  "message_or (Error m) d = m"
| "message_or Thrown d = d"

section \<open>ActivityReview.fetchFiles\<close>

text \<open>
  The file entry of the backend's listings. The review components each declare the
  fields they read; this record has them all, the optional ones nullable.
\<close>

record UploadedFile =
  filename :: string
  fsize :: nat
  url :: "string nullable"
  uploaded_at :: "string nullable"
  last_modified :: "string nullable"
  file_section :: "string nullable"
  s3_key :: "string nullable"

text \<open>
  What \<open>fetch\<close> gives for one request: it rejects, or resolves to a response with its
  \<open>ok\<close> flag and the outcome of reading \<open>data.files\<close> from the body (\<open>Inl\<close> when
  \<open>res.json()\<close> rejects or \<open>data\<close> has no properties to read).
\<close>

datatype 'a fetched = Rejects js_exn | Resolves bool "js_exn + 'a"

text \<open>The component state that \<open>fetchFiles\<close> touches.\<close>

record review_state =
  files :: "UploadedFile list"
  loading :: bool
  error :: "string nullable"

text \<open>The calls \<open>fetchFiles\<close> makes, in program order.\<close>

datatype review_effect =
    SetFiles "UploadedFile list"
  | SetLoading bool
  | SetError "string nullable"
  | Fetch string

fun apply_effect :: "review_state \<Rightarrow> review_effect \<Rightarrow> review_state" where
  "apply_effect s (SetFiles fs) = s\<lparr>files := fs\<rparr>"
| "apply_effect s (SetLoading b) = s\<lparr>loading := b\<rparr>"
| "apply_effect s (SetError e) = s\<lparr>error := e\<rparr>"
| "apply_effect s (Fetch u) = s"

definition run_effects :: "review_state \<Rightarrow> review_effect list \<Rightarrow> review_state" where
  "run_effects s tr = foldl apply_effect s tr"

fun is_fetch :: "review_effect \<Rightarrow> bool" where
  "is_fetch (Fetch _) = True"
| "is_fetch _ = False"

fun is_error_message :: "review_effect \<Rightarrow> bool" where
  "is_error_message (SetError (Val _)) = True"
| "is_error_message _ = False"

definition activity_url :: "string nullable \<Rightarrow> string \<Rightarrow> string" where
  "activity_url public_backend_url userId =
     or_str public_backend_url ''/api/backend'' @ ''/api/upload/activity?user_id='' @ userId"

text \<open>The body of the \<open>try\<close> block: the effects made and, if it throws, what is thrown.\<close>

fun fetchFiles_try :: "UploadedFile list nullable fetched \<Rightarrow> review_effect list \<times> js_exn option" where
  "fetchFiles_try (Rejects e) = ([], Some e)"
| "fetchFiles_try (Resolves ok body) =
     (if \<not> ok then ([], Some (Error ''Failed to fetch files''))
      else case body of
             Inl e \<Rightarrow> ([], Some e)
           | Inr fs \<Rightarrow> ([SetFiles (coalesce fs [])], None))"

definition fetchFiles ::
  "string nullable \<Rightarrow> (string \<Rightarrow> UploadedFile list nullable fetched) \<Rightarrow> string nullable
     \<Rightarrow> review_effect list" where
  "fetchFiles public_backend_url net userId =
     (if \<not> truthy_str userId
      then [SetError (Val ''Missing user id in session''), SetLoading False]
      else
        let u = activity_url public_backend_url (coalesce userId []);
            (tr, thrown) = fetchFiles_try (net u)
        in [SetLoading True, SetError Null, Fetch u] @ tr
           @ (case thrown of
                None \<Rightarrow> []
              | Some e \<Rightarrow> [SetError (Val (message_or e ''Failed to load files''))])
           @ [SetLoading False])"

text \<open>The request failed: \<open>fetch\<close> threw, or the response was not ok.\<close>

fun request_failed :: "'a fetched \<Rightarrow> bool" where
  "request_failed (Rejects e) = True"
| "request_failed (Resolves ok body) = (\<not> ok)"

fun failure_text :: "'a fetched \<Rightarrow> string" where
  "failure_text (Rejects e) = message_or e ''Failed to load files''"
| "failure_text (Resolves ok body) = ''Failed to fetch files''"

section \<open>AllFilesReview.fetchAllFiles: grouping by section\<close>





definition file0 :: UploadedFile where
  "file0 = \<lparr>filename = ''a.pdf'', fsize = 3, url = Undefined, uploaded_at = Undefined,
             last_modified = Undefined, file_section = Undefined, s3_key = Undefined\<rparr>"

section \<open>The user store (lib/user-store.ts)\<close>

record User =
  id_u :: string
  email_u :: string
  firstName :: string
  lastName :: string
  passwordHash :: string
  createdAt :: string

text \<open>
  The text of a file, up to what \<open>JSON.parse\<close> makes of it: an array of users (what
  \<open>JSON.stringify(users)\<close> writes), some other JSON value, or no JSON at all. The file
  system maps a path to the file there, if any. \<open>mkdir\<close> and \<open>writeFile\<close> are taken
  to succeed.
\<close>

datatype file_text = UsersJson "User list" | OtherJson | NotJson







section \<open>Sign-in and tokens (\<open>authOptions\<close>)\<close>

fun truthy_num :: "int nullable \<Rightarrow> bool" where
  "truthy_num (Val n) = (n \<noteq> 0)"
| "truthy_num _ = False"

text \<open>\<open>x ?? null\<close>\<close>

fun or_null :: "'a nullable \<Rightarrow> 'a nullable" where
  "or_null (Val x) = Val x"
| "or_null _ = Null"

text \<open>\<open>Array.prototype.join\<close> on strings.\<close>

fun join_with :: "string \<Rightarrow> string list \<Rightarrow> string" where
  "join_with sep [] = []"
| "join_with sep [x] = x"
| "join_with sep (x # y # ys) = x @ sep @ join_with sep (y # ys)"



text \<open>The user object of the backend's login response: the fields the code reads.\<close>

record user_payload =
  id_p :: "string nullable"
  email_p :: "string nullable"
  first_name :: "string nullable"
  last_name :: "string nullable"
  role_p :: "string nullable"
  org_id :: "string nullable"

text \<open>
  \<open>TokenResponse\<close>. The code reads the user fields from \<open>data.user\<close> and, when that is
  absent, from \<open>data\<close> itself, so the response carries them as well.
\<close>

record TokenResponse = user_payload +
  resp_user :: "user_payload nullable"
  access_token :: "string nullable"
  refresh_token :: "string nullable"
  expires_in :: "int nullable"

text \<open>The parsed body of a backend response: \<open>null\<close>, or an object.\<close>

datatype login_body = JsonNull | JsonObject TokenResponse

text \<open>The user object that \<open>authorize\<close> returns and the \<open>jwt\<close> callback receives.\<close>

record auth_user =
  u_id :: "string nullable"
  u_email :: "string nullable"
  u_name :: string
  u_remember :: bool
  u_role :: "string nullable"
  u_orgId :: "string nullable"
  u_accessToken :: "string nullable"
  u_refreshToken :: "string nullable"
  u_accessTokenExpiresIn :: "int nullable"




text \<open>The JWT that the callbacks keep: the fields the code reads and writes.\<close>

record Token =
  sub :: "string nullable"
  role :: "string nullable"
  orgId :: "string nullable"
  accessToken :: "string nullable"
  refreshToken :: "string nullable"
  accessTokenExpires :: "int nullable"

definition refresh_url :: "string nullable \<Rightarrow> string" where
  "refresh_url backend_url = or_str backend_url ''http://127.0.0.1:8000'' @ ''/api/auth/refresh''"

text \<open>
  \<open>refreshAccessToken\<close>. The network takes the URL and the refresh token sent; \<open>now\<close>
  is what \<open>Date.now()\<close> reads, in milliseconds.
\<close>

definition refreshAccessToken ::
  "string nullable \<Rightarrow> (string \<Rightarrow> string nullable \<Rightarrow> login_body fetched) \<Rightarrow> int \<Rightarrow> Token \<Rightarrow> Token" where
  "refreshAccessToken backend_url net now token =
     (let failed = token\<lparr>accessToken := Null, accessTokenExpires := Val 0\<rparr>
      in case net (refresh_url backend_url) (refreshToken token) of
           Rejects e \<Rightarrow> failed
         | Resolves ok body \<Rightarrow>
             if \<not> ok then failed
             else case body of
                    Inl e \<Rightarrow> failed
                  | Inr JsonNull \<Rightarrow> failed
                  | Inr (JsonObject data) \<Rightarrow>
                      token\<lparr>accessToken := access_token data,
                            refreshToken := (if truthy_str (refresh_token data)
                                             then refresh_token data else refreshToken token),
                            accessTokenExpires :=
                              Val (now + coalesce (expires_in data) 1800 * 1000)\<rparr>)"

text \<open>
  The \<open>jwt\<close> callback. \<open>t_signin\<close>, \<open>t_check\<close> and \<open>t_refresh\<close> are the three readings of
  \<open>Date.now()\<close>, in program order. The result is the token returned and the refresh
  requests issued (the refresh token of each).
\<close>

definition jwt ::
  "string nullable \<Rightarrow> (string \<Rightarrow> string nullable \<Rightarrow> login_body fetched) \<Rightarrow> int \<Rightarrow> int \<Rightarrow> int
     \<Rightarrow> Token \<Rightarrow> auth_user option \<Rightarrow> Token \<times> string nullable list" where
  "jwt backend_url net t_signin t_check t_refresh token usr =
     (let token1 = (case usr of
                      None \<Rightarrow> token
                    | Some u \<Rightarrow> token\<lparr>sub := u_id u,
                                      role := Val (coalesce (u_role u) ''student''),
                                      orgId := or_null (u_orgId u)\<rparr>);
          token2 = (case usr of
                      None \<Rightarrow> token1
                    | Some u \<Rightarrow>
                        if truthy_str (u_accessToken u)
                        then token1\<lparr>accessToken := u_accessToken u,
                                    refreshToken := u_refreshToken u,
                                    accessTokenExpires :=
                                      Val (t_signin + coalesce (u_accessTokenExpiresIn u) 1800 * 1000)\<rparr>
                        else token1)
      in if truthy_num (accessTokenExpires token2)
            \<and> t_check > coalesce (accessTokenExpires token2) 0 - 60000
         then (refreshAccessToken backend_url net t_refresh token2, [refreshToken token2])
         else (token2, []))"

text \<open>The session handed to the \<open>session\<close> callback and what the callback returns.\<close>

record SessionUser =
  id_s :: "string nullable"
  role_s :: "string nullable"
  orgId_s :: "string nullable"

record Session =
  s_user :: "SessionUser nullable"
  s_accessToken :: "string nullable"

definition session_callback :: "Session \<Rightarrow> Token \<Rightarrow> Session" where
  "session_callback session token =
     (let session1 = (case s_user session of
                        Val u \<Rightarrow>
                          if truthy_str (sub token)
                          then session\<lparr>s_user := Val (u\<lparr>id_s := sub token,
                                                         role_s := Val (coalesce (role token) ''student''),
                                                         orgId_s := or_null (orgId token)\<rparr>)\<rparr>
                          else session
                      | _ \<Rightarrow> session)
      in session1\<lparr>s_accessToken := or_null (accessToken token)\<rparr>)"

section \<open>The reverse proxy route (\<open>proxy\<close>)\<close>

text \<open>
  A request as the proxy reads it. \<open>Headers\<close> keeps names in lower case, so the headers
  are a map from lower-case names.
\<close>

record Request =
  rq_method :: string
  rq_origin :: string
  rq_search :: string
  rq_headers :: "string \<rightharpoonup> string"
  rq_body :: string

record Outgoing =
  o_url :: string
  o_method :: string
  o_headers :: "string \<rightharpoonup> string"
  o_body :: "string option"

record BackendResponse =
  status :: nat
  r_headers :: "string \<rightharpoonup> string"
  r_body :: string

text \<open>\<open>getServerSession\<close>: it throws, or gives a session or \<open>null\<close>.\<close>

datatype session_lookup = SessionThrows | SessionIs "Session option"

text \<open>\<open>backendBase.replace(/\/$/, '')\<close>\<close>

definition strip_trailing_slash :: "string \<Rightarrow> string" where
  "strip_trailing_slash s = (if s \<noteq> [] \<and> last s = CHR ''/'' then butlast s else s)"

text \<open>\<open>(session as any)?.accessToken\<close>, when it is truthy.\<close>

fun session_token :: "session_lookup \<Rightarrow> string option" where
  "session_token (SessionIs (Some s)) =
     (if truthy_str (s_accessToken s) then Some (coalesce (s_accessToken s) []) else None)"
| "session_token _ = None"

definition target_url :: "string nullable \<Rightarrow> string list nullable \<Rightarrow> Request \<Rightarrow> string" where
  "target_url backend_url path request =
     (let p = join_with ''/'' (coalesce path []);
          backendBase = (if truthy_str backend_url then coalesce backend_url []
                         else if rq_origin request \<noteq> [] then rq_origin request
                         else ''http://127.0.0.1:8000'');
          targetBase = strip_trailing_slash backendBase
      in (if p \<noteq> [] then targetBase @ ''/'' @ p else targetBase) @ rq_search request)"

definition forward_headers :: "session_lookup \<Rightarrow> Request \<Rightarrow> (string \<rightharpoonup> string)" where
  "forward_headers session request =
     (let h = ((rq_headers request)(''host'' := None))(''content-length'' := None)
      in case session_token session of
           Some t \<Rightarrow> h(''authorization'' \<mapsto> ''Bearer '' @ t)
         | None \<Rightarrow> h)"

text \<open>
  \<open>proxy\<close>: the request sent to the backend and what the caller gets, \<open>Inl\<close> when
  \<open>fetch\<close> throws (the proxy does not catch it).
\<close>

definition proxy ::
  "string nullable \<Rightarrow> session_lookup \<Rightarrow> (Outgoing \<Rightarrow> js_exn + BackendResponse)
     \<Rightarrow> string list nullable \<Rightarrow> Request \<Rightarrow> Outgoing \<times> (js_exn + BackendResponse)" where
  "proxy backend_url session net path request =
     (let out = \<lparr>o_url = target_url backend_url path request,
                 o_method = rq_method request,
                 o_headers = forward_headers session request,
                 o_body = (if rq_method request = ''GET'' \<or> rq_method request = ''HEAD''
                           then None else Some (rq_body request))\<rparr>
      in (out, case net out of
                 Inl e \<Rightarrow> Inl e
               | Inr response \<Rightarrow>
                   Inr (response\<lparr>r_headers := (r_headers response)(''content-encoding'' := None)\<rparr>)))"

definition payload0 :: TokenResponse where
  "payload0 = \<lparr>id_p = Val ''7'', email_p = Val ''a@b.co'', first_name = Val ''Ann'',
               last_name = Undefined, role_p = Undefined, org_id = Undefined,
               resp_user = Undefined, access_token = Val ''tok'', refresh_token = Undefined,
               expires_in = Undefined\<rparr>"

definition token0 :: Token where
  "token0 = \<lparr>sub = Val ''7'', role = Val ''student'', orgId = Null, accessToken = Null,
              refreshToken = Val ''r1'', accessTokenExpires = Val 0\<rparr>"

definition token1 :: Token where
  "token1 = \<lparr>sub = Val ''7'', role = Val ''student'', orgId = Null, accessToken = Val ''tok'',
              refreshToken = Val ''r1'', accessTokenExpires = Val 1800000\<rparr>"

definition request0 :: Request where
  "request0 = \<lparr>rq_method = ''GET'', rq_origin = ''https://portal'', rq_search = [],
                rq_headers = [''accept'' \<mapsto> ''*/*''], rq_body = []\<rparr>"

section \<open>The document parser (components/parse/document-parser.tsx)\<close>

record S3FileInfo =
  key :: string
  s3_filename :: string
  s3_section :: string
  file_type :: string
  s3_size :: nat
  s3_last_modified :: string
  s3_url :: string

text \<open>\<open>ParseResult\<close>: the fields that identify it and the chunk count the report reads.\<close>

record ParseResult =
  document_id :: string
  source_file :: string
  chunks_created :: "int nullable"
  processor_used :: string

text \<open>The \<open>status\<close> of a \<open>FileItem\<close>; \<open>ErrorStatus\<close> is the source's \<open>'error'\<close>.\<close>

datatype file_status = Pending | Processing | Success | ErrorStatus

record FileItem =
  s3_file :: S3FileInfo
  item_status :: file_status
  progress :: "int nullable"
  progressMessage :: "string nullable"
  result :: "ParseResult option"
  item_error :: "string nullable"

datatype entry_status = EntrySuccess | EntryError

record report_entry =
  e_filename :: string
  e_status :: entry_status
  e_chunks :: "int nullable"
  e_error :: "string nullable"

record ProcessingReport =
  total_files :: nat
  successful :: nat
  failed :: nat
  total_chunks :: int
  processing_time :: string
  report_files :: "report_entry list"

text \<open>
  What the stream sends. A message carries the object that \<open>JSON.parse(event.data)\<close>
  gives, \<open>None\<close> when the handler's own \<open>try\<close> catches (no JSON, or no object to read
  from); \<open>ConnectionError\<close> is the event that \<open>onerror\<close> receives.
\<close>

record sse_data =
  d_error :: "string nullable"
  d_result :: "ParseResult option"
  d_progress :: "int nullable"
  d_message :: "string nullable"

datatype sse_event = Message "sse_data option" | ConnectionError

text \<open>The object spreads that the \<open>setFiles\<close> updaters apply to the item of one index.\<close>

datatype item_update =
    MarkProcessing
  | MarkError string
  | SetProgress "int nullable" "string nullable"
  | MarkSuccess ParseResult
  | MarkFailed string

fun apply_update :: "item_update \<Rightarrow> FileItem \<Rightarrow> FileItem" where
  "apply_update MarkProcessing f = f\<lparr>item_status := Processing, progress := Val 0\<rparr>"
| "apply_update (MarkError e) f = f\<lparr>item_status := ErrorStatus, item_error := Val e\<rparr>"
| "apply_update (SetProgress p m) f = f\<lparr>progress := p, progressMessage := m\<rparr>"
| "apply_update (MarkSuccess r) f =
     f\<lparr>item_status := Success, progress := Val 100, result := Some r\<rparr>"
| "apply_update (MarkFailed e) f =
     f\<lparr>item_status := ErrorStatus, progress := Val 0, item_error := Val e\<rparr>"

text \<open>
  The calls that \<open>processSelectedFiles\<close> and its handlers make, in the order they
  happen. \<open>OpenStream i k u\<close> is \<open>new EventSource\<close> for the file of index \<open>i\<close>, on the
  stream URL of key \<open>k\<close> and user \<open>u\<close>; \<open>CloseStream i\<close> is \<open>eventSource.close()\<close> on it;
  \<open>UpdateItem i upd\<close> is \<open>setFiles(prev => prev.map(...))\<close> changing index \<open>i\<close>.
\<close>

datatype parser_effect =
    Alert string
  | SetIsProcessing bool
  | SetFileItems "FileItem list"
  | UpdateItem nat item_update
  | OpenStream nat string string
  | CloseStream nat
  | SetReport ProcessingReport

text \<open>
  One event, handled while the connection is open, with \<open>parseResult\<close> as it stands:
  whether the connection is closed now, the new \<open>parseResult\<close>, and the calls made.
\<close>

fun on_event ::
  "nat \<Rightarrow> sse_event \<Rightarrow> ParseResult option \<Rightarrow> (bool \<times> ParseResult option) \<times> parser_effect list" where
  "on_event i ConnectionError parseResult =
     ((True, parseResult),
      CloseStream i #
      (if parseResult = None
       then [UpdateItem i (MarkError ''Connection lost during processing'')] else []))"
| "on_event i (Message None) parseResult = ((False, parseResult), [])"
| "on_event i (Message (Some d)) parseResult =
     (if truthy_str (d_error d)
      then ((True, parseResult), [CloseStream i, UpdateItem i (MarkError (coalesce (d_error d) []))])
      else case d_result d of
             Some r \<Rightarrow> ((True, Some r), [CloseStream i])
           | None \<Rightarrow>
               if d_progress d \<noteq> Undefined
               then ((False, parseResult), [UpdateItem i (SetProgress (d_progress d) (d_message d))])
               else ((False, parseResult), []))"

text \<open>
  The events of one connection, in order. Nothing is dispatched once the connection is
  closed. When the events end with the connection still open, it stays open.
\<close>

fun run_stream ::
  "nat \<Rightarrow> sse_event list \<Rightarrow> ParseResult option \<Rightarrow> (bool \<times> ParseResult option) \<times> parser_effect list" where
  "run_stream i [] parseResult = ((False, parseResult), [])"
| "run_stream i (e # es) parseResult =
     (case on_event i e parseResult of
        ((True, pr), eff) \<Rightarrow> ((True, pr), eff)
      | ((False, pr), eff) \<Rightarrow>
          (case run_stream i es pr of (st, eff') \<Rightarrow> (st, eff @ eff')))"

definition no_result_message :: string where
  "no_result_message = ''Processing failed - no result received''"

text \<open>
  The \<open>for\<close> loop from index \<open>i\<close> on; \<open>streams i\<close> are the events of the connection
  opened for index \<open>i\<close>. The wait for \<open>readyState === CLOSED\<close> ends only when the
  connection is closed: otherwise the loop never goes on, and there are no results
  (\<open>None\<close>).
\<close>

fun process_loop ::
  "string \<Rightarrow> (nat \<Rightarrow> sse_event list) \<Rightarrow> nat \<Rightarrow> S3FileInfo list
     \<Rightarrow> parser_effect list \<times> report_entry list option" where
  "process_loop userId streams i [] = ([], Some [])"
| "process_loop userId streams i (s3File # rest) =
     (case run_stream i (streams i) None of
        ((False, pr), eff) \<Rightarrow>
          ([UpdateItem i MarkProcessing, OpenStream i (key s3File) userId] @ eff, None)
      | ((True, None), eff) \<Rightarrow>
          (case process_loop userId streams (Suc i) rest of
             (tr, results) \<Rightarrow>
               ([UpdateItem i MarkProcessing, OpenStream i (key s3File) userId] @ eff
                  @ [UpdateItem i (MarkFailed no_result_message)] @ tr,
                map_option ((#) \<lparr>e_filename = s3_filename s3File, e_status = EntryError,
                                  e_chunks = Undefined, e_error = Val no_result_message\<rparr>)
                  results))
      | ((True, Some finalResult), eff) \<Rightarrow>
          (case process_loop userId streams (Suc i) rest of
             (tr, results) \<Rightarrow>
               ([UpdateItem i MarkProcessing, OpenStream i (key s3File) userId] @ eff
                  @ [UpdateItem i (MarkSuccess finalResult)] @ tr,
                map_option ((#) \<lparr>e_filename = s3_filename s3File, e_status = EntrySuccess,
                                  e_chunks = chunks_created finalResult, e_error = Undefined\<rparr>)
                  results)))"

text \<open>
  The report. \<open>processingTime\<close> is the elapsed time as \<open>toFixed(2)\<close> prints it, taken as
  given.
\<close>

definition make_report :: "S3FileInfo list \<Rightarrow> report_entry list \<Rightarrow> string \<Rightarrow> ProcessingReport" where
  "make_report filesToProcess results processingTime =
     \<lparr>total_files = length filesToProcess,
      successful = length (filter (\<lambda>r. e_status r = EntrySuccess) results),
      failed = length (filter (\<lambda>r. e_status r = EntryError) results),
      total_chunks = foldl (\<lambda>sum r. sum + coalesce (e_chunks r) 0) 0
                       (filter (\<lambda>r. e_status r = EntrySuccess) results),
      processing_time = processingTime,
      report_files = results\<rparr>"

text \<open>\<open>selectedFiles\<close> is a \<open>Set\<close> of keys: a list without repetition, in insertion order.\<close>

definition filesToProcess_of :: "string list \<Rightarrow> S3FileInfo list \<Rightarrow> S3FileInfo list" where
  "filesToProcess_of selectedFiles s3Files = filter (\<lambda>f. key f \<in> set selectedFiles) s3Files"

definition pending_item :: "S3FileInfo \<Rightarrow> FileItem" where
  "pending_item f = \<lparr>s3_file = f, item_status = Pending, progress = Val 0,
                     progressMessage = Undefined, result = None, item_error = Undefined\<rparr>"

text \<open>\<open>processSelectedFiles\<close>: the calls made, and the report if one is set.\<close>

definition processSelectedFiles ::
  "string nullable \<Rightarrow> string list \<Rightarrow> S3FileInfo list \<Rightarrow> (nat \<Rightarrow> sse_event list) \<Rightarrow> string
     \<Rightarrow> parser_effect list \<times> ProcessingReport option" where
  "processSelectedFiles userId selectedFiles s3Files streams processingTime =
     (if \<not> truthy_str userId then ([Alert ''Please login first''], None)
      else if length selectedFiles = 0 then ([Alert ''Please select files to process''], None)
      else
        let filesToProcess = filesToProcess_of selectedFiles s3Files
        in case process_loop (coalesce userId []) streams 0 filesToProcess of
             (tr, None) \<Rightarrow>
               ([SetIsProcessing True, SetFileItems (map pending_item filesToProcess)] @ tr, None)
           | (tr, Some results) \<Rightarrow>
               ([SetIsProcessing True, SetFileItems (map pending_item filesToProcess)] @ tr
                  @ [SetReport (make_report filesToProcess results processingTime),
                     SetIsProcessing False],
                Some (make_report filesToProcess results processingTime)))"

text \<open>The \<open>files\<close> state under the calls, and the states it goes through.\<close>

fun apply_parser_effect :: "FileItem list \<Rightarrow> parser_effect \<Rightarrow> FileItem list" where
  "apply_parser_effect prev (SetFileItems items) = items"
| "apply_parser_effect prev (UpdateItem i upd) =
     (if i < length prev then prev[i := apply_update upd (prev ! i)] else prev)"
| "apply_parser_effect prev _ = prev"

fun states_after :: "FileItem list \<Rightarrow> parser_effect list \<Rightarrow> FileItem list list" where
  "states_after prev [] = []"
| "states_after prev (e # es) =
     apply_parser_effect prev e # states_after (apply_parser_effect prev e) es"

text \<open>The statuses that the item of index \<open>i\<close> shows, one for each state that has it.\<close>

definition status_history :: "nat \<Rightarrow> FileItem list \<Rightarrow> parser_effect list \<Rightarrow> file_status list" where
  "status_history i prev tr =
     map (\<lambda>items. item_status (items ! i)) (filter (\<lambda>items. i < length items) (states_after prev tr))"

text \<open>The moves of the status: pending, then processing, then success or error.\<close>

fun status_step :: "file_status \<Rightarrow> file_status \<Rightarrow> bool" where
  "status_step Pending Processing = True"
| "status_step Processing Success = True"
| "status_step Processing ErrorStatus = True"
| "status_step _ _ = False"

text \<open>The indices of the connections opened, in order.\<close>

fun opened :: "parser_effect list \<Rightarrow> nat list" where
  "opened [] = []"
| "opened (OpenStream i k u # tr) = i # opened tr"
| "opened (_ # tr) = opened tr"

text \<open>
  A trace is sequential from a given open connection (if any) when a connection is
  opened only while none is open, and the one closed is the one open.
\<close>

fun sequential :: "nat option \<Rightarrow> parser_effect list \<Rightarrow> bool" where
  "sequential cur [] = True"
| "sequential cur (OpenStream i k u # tr) = (cur = None \<and> sequential (Some i) tr)"
| "sequential cur (CloseStream i # tr) = (cur = Some i \<and> sequential None tr)"
| "sequential cur (_ # tr) = sequential cur tr"

text \<open>
  What ends a connection: a message with an error, a message with a result, or the
  loss of the connection. \<open>ends_without_result\<close>: the first of these is an error or the
  loss; \<open>ends\<close>: there is one.
\<close>

fun ends_without_result :: "sse_event list \<Rightarrow> bool" where
  "ends_without_result [] = False"
| "ends_without_result (ConnectionError # es) = True"
| "ends_without_result (Message None # es) = ends_without_result es"
| "ends_without_result (Message (Some d) # es) =
     (if truthy_str (d_error d) then True
      else if d_result d \<noteq> None then False
      else ends_without_result es)"

fun ends :: "sse_event list \<Rightarrow> bool" where
  "ends [] = False"
| "ends (ConnectionError # es) = True"
| "ends (Message None # es) = ends es"
| "ends (Message (Some d) # es) = (truthy_str (d_error d) \<or> d_result d \<noteq> None \<or> ends es)"

text \<open>The selection and the listing, and the two operations that change them.\<close>

record parser_state =
  s3Files :: "S3FileInfo list"
  selectedFiles :: "string list"
  selectedSection :: string



definition s3file0 :: S3FileInfo where
  "s3file0 = \<lparr>key = ''u1/testing/sat.pdf'', s3_filename = ''sat.pdf'', s3_section = ''testing'',
               file_type = ''pdf'', s3_size = 10, s3_last_modified = ''2024-01-01'',
               s3_url = ''https://files/sat.pdf''\<rparr>"

definition result0 :: ParseResult where
  "result0 = \<lparr>document_id = ''d1'', source_file = ''sat.pdf'', chunks_created = Val 4,
               processor_used = ''vision''\<rparr>"

section \<open>TestingUpload.handleSubmit\<close>

text \<open>
  How the request ends: \<open>onload\<close> with a status, or \<open>onerror\<close>. Before that come the
  progress events with a computable length, each given by the percentage that
  \<open>Math.round\<close> makes of it.
\<close>

datatype xhr_outcome = Loaded nat | NetworkError

datatype upload_effect =
    UploadSetError "string nullable"
  | SetUploading bool
  | UploadSetProgress nat
  | XhrOpen string string
  | XhrSend string "string list"
  | XhrAbort
  | RouterPush string

definition handleSubmit ::
  "string nullable \<Rightarrow> string nullable \<Rightarrow> string list \<Rightarrow> nat list \<Rightarrow> xhr_outcome \<Rightarrow> upload_effect list" where
  "handleSubmit public_backend_url userId upload_files percentages outcome =
     UploadSetError Null #
     (if \<not> truthy_str userId then [UploadSetError (Val ''Missing user id in session'')]
      else if upload_files = [] then [UploadSetError (Val ''Please select at least one file'')]
      else
        [SetUploading True,
         XhrOpen ''POST'' (or_str public_backend_url ''/api/backend'' @ ''/api/upload/testing''),
         XhrSend (coalesce userId []) upload_files]
        @ map UploadSetProgress percentages
        @ (case outcome of
             Loaded st \<Rightarrow>
               if 200 \<le> st \<and> st < 300 then [RouterPush ''/'']
               else [UploadSetError (Val ''Upload failed'')]
           | NetworkError \<Rightarrow> [UploadSetError (Val ''Network error'')])
        @ [SetUploading False, UploadSetProgress 0])"

text \<open>Two streams for a batch of two: the first loses its connection, the second delivers.\<close>

definition streams0 :: "nat \<Rightarrow> sse_event list" where
  "streams0 i =
     (if i = 0 then [ConnectionError]
      else [Message (Some \<lparr>d_error = Undefined, d_result = None, d_progress = Val 50,
                            d_message = Val ''half''\<rparr>),
            Message (Some \<lparr>d_error = Undefined, d_result = Some result0,
                            d_progress = Undefined, d_message = Undefined\<rparr>)])"

definition s3file1 :: S3FileInfo where
  "s3file1 = \<lparr>key = ''u1/activity/award.png'', s3_filename = ''award.png'',
               s3_section = ''activity'', file_type = ''png'', s3_size = 20,
               s3_last_modified = ''2024-01-02'', s3_url = ''https://files/award.png''\<rparr>"


text \<open>Which calls replace the whole \<open>files\<close> state, and which change the item of index \<open>i\<close>.\<close>

fun sets_items :: "parser_effect \<Rightarrow> bool" where
  "sets_items (SetFileItems items) = True"
| "sets_items _ = False"

fun updates_item :: "nat \<Rightarrow> parser_effect \<Rightarrow> bool" where
  "updates_item i (UpdateItem j upd) = (i = j)"
| "updates_item i _ = False"



section \<open>Theorems\<close>

text \<open>
  C3. When \<open>fetchFiles\<close> issues its listing request (a user id is present) and the
  request fails, because \<open>fetch\<close> throws or the response is not ok, then exactly one
  error message is set, the loading flag ends cleared, the file list held before is
  unchanged, and exactly one request was issued: there is no retry.
\<close>

theorem fetchFiles_failure:
  assumes "truthy_str userId"
    and "request_failed (net (activity_url base (coalesce userId [])))"
  shows "length (filter is_error_message (fetchFiles base net userId)) = 1
       \<and> length (filter is_fetch (fetchFiles base net userId)) = 1
       \<and> run_effects s (fetchFiles base net userId)
           = s\<lparr>loading := False,
               error := Val (failure_text (net (activity_url base (coalesce userId []))))\<rparr>"
proof (cases "net (activity_url base (coalesce userId []))")
  case (Rejects e)
  with assms(1) show ?thesis
    by (simp add: fetchFiles_def run_effects_def)
next
  case (Resolves ok body)
  with assms have "\<not> ok" by simp
  with Resolves assms(1) show ?thesis
    by (simp add: fetchFiles_def run_effects_def)
qed

theorem fetchFiles_failure_witness:
  "length (filter is_error_message
      (fetchFiles Undefined (\<lambda>u. Resolves False (Inr (Val []))) (Val ''u1''))) = 1
   \<and> length (filter is_fetch
      (fetchFiles Undefined (\<lambda>u. Resolves False (Inr (Val []))) (Val ''u1''))) = 1
   \<and> run_effects \<lparr>files = [file0], loading = True, error = Null\<rparr>
       (fetchFiles Undefined (\<lambda>u. Resolves False (Inr (Val []))) (Val ''u1''))
     = \<lparr>files = [file0], loading = False,
        error = Val ''Failed to fetch files''\<rparr>"
  using fetchFiles_failure [of "Val ''u1''" "\<lambda>u. Resolves False (Inr (Val []))" Undefined
      "\<lparr>files = [file0], loading = True, error = Null\<rparr>"]
  by simp

subsection \<open>Grouping by section\<close>




subsection \<open>The user store\<close>




subsection \<open>The reverse proxy\<close>

text \<open>
  C1. With \<open>BACKEND_URL\<close> configured, the proxy sends the request to that URL (less one
  trailing slash) followed by the sub-path segments joined by \<open>/\<close> and the query string
  as it came, under the request's method, with the \<open>host\<close> and \<open>content-length\<close>
  headers removed and every header other than \<open>authorization\<close> as it came; when the
  server session holds a (non-empty) access token the \<open>authorization\<close> header is
  \<open>Bearer\<close> followed by the token; and when the backend answers, the caller gets the
  backend's status code and body.
\<close>

theorem proxy_forwards:
  assumes "truthy_str backend_url"
  shows "o_url (fst (proxy backend_url session net path request))
           = strip_trailing_slash (coalesce backend_url [])
             @ (if join_with ''/'' (coalesce path []) = [] then []
                else ''/'' @ join_with ''/'' (coalesce path []))
             @ rq_search request
       \<and> o_method (fst (proxy backend_url session net path request)) = rq_method request
       \<and> o_headers (fst (proxy backend_url session net path request)) ''host'' = None
       \<and> o_headers (fst (proxy backend_url session net path request)) ''content-length'' = None
       \<and> (\<forall>n. n \<notin> {''host'', ''content-length'', ''authorization''} \<longrightarrow>
              o_headers (fst (proxy backend_url session net path request)) n = rq_headers request n)
       \<and> (\<forall>s t. session = SessionIs (Some s) \<and> s_accessToken s = Val t \<and> t \<noteq> [] \<longrightarrow>
              o_headers (fst (proxy backend_url session net path request)) ''authorization''
                = Some (''Bearer '' @ t))
       \<and> (\<forall>response. net (fst (proxy backend_url session net path request)) = Inr response \<longrightarrow>
              (\<exists>r. snd (proxy backend_url session net path request) = Inr r
                   \<and> status r = status response \<and> r_body r = r_body response))"
proof -
  let ?out = "fst (proxy backend_url session net path request)"
  have url: "o_url ?out = target_url backend_url path request"
    and meth: "o_method ?out = rq_method request"
    and hdrs: "o_headers ?out = forward_headers session request"
    by (simp_all add: proxy_def Let_def)
  have res: "snd (proxy backend_url session net path request)
               = (case net ?out of
                    Inl e \<Rightarrow> Inl e
                  | Inr response \<Rightarrow>
                      Inr (response\<lparr>r_headers := (r_headers response)(''content-encoding'' := None)\<rparr>))"
    by (simp add: proxy_def Let_def)
  have c1: "target_url backend_url path request
              = strip_trailing_slash (coalesce backend_url [])
                @ (if join_with ''/'' (coalesce path []) = [] then []
                   else ''/'' @ join_with ''/'' (coalesce path []))
                @ rq_search request"
    using assms by (simp add: target_url_def Let_def)
  have c3: "forward_headers session request ''host'' = None"
    and c4: "forward_headers session request ''content-length'' = None"
    by (simp_all add: forward_headers_def Let_def split: option.splits)
  have c5: "\<forall>n. n \<notin> {''host'', ''content-length'', ''authorization''} \<longrightarrow>
              forward_headers session request n = rq_headers request n"
    by (simp add: forward_headers_def Let_def split: option.splits)
  have c6: "\<forall>s t. session = SessionIs (Some s) \<and> s_accessToken s = Val t \<and> t \<noteq> [] \<longrightarrow>
              forward_headers session request ''authorization'' = Some (''Bearer '' @ t)"
    by (simp add: forward_headers_def Let_def)
  have c7: "\<forall>response. net ?out = Inr response \<longrightarrow>
              (\<exists>r. snd (proxy backend_url session net path request) = Inr r
                   \<and> status r = status response \<and> r_body r = r_body response)"
    by (simp add: res)
  show ?thesis
    unfolding url meth hdrs using c1 c3 c4 c5 c6 c7 unfolding hdrs by blast
qed

theorem proxy_forwards_witness:
  "o_url (fst (proxy (Val ''http://backend:8000/'')
          (SessionIs (Some \<lparr>s_user = Null, s_accessToken = Val ''tok''\<rparr>))
          (\<lambda>out. Inr \<lparr>status = 201, r_headers = Map.empty, r_body = ''{}''\<rparr>)
          (Val [''api'', ''parse'', ''files''])
          \<lparr>rq_method = ''POST'', rq_origin = ''https://portal'', rq_search = ''?user_id=7'',
           rq_headers = [''host'' \<mapsto> ''portal''], rq_body = ''x''\<rparr>))
     = ''http://backend:8000/api/parse/files?user_id=7''
   \<and> o_headers (fst (proxy (Val ''http://backend:8000/'')
          (SessionIs (Some \<lparr>s_user = Null, s_accessToken = Val ''tok''\<rparr>))
          (\<lambda>out. Inr \<lparr>status = 201, r_headers = Map.empty, r_body = ''{}''\<rparr>)
          (Val [''api'', ''parse'', ''files''])
          \<lparr>rq_method = ''POST'', rq_origin = ''https://portal'', rq_search = ''?user_id=7'',
           rq_headers = [''host'' \<mapsto> ''portal''], rq_body = ''x''\<rparr>)) ''authorization''
     = Some ''Bearer tok''
   \<and> o_headers (fst (proxy (Val ''http://backend:8000/'')
          (SessionIs (Some \<lparr>s_user = Null, s_accessToken = Val ''tok''\<rparr>))
          (\<lambda>out. Inr \<lparr>status = 201, r_headers = Map.empty, r_body = ''{}''\<rparr>)
          (Val [''api'', ''parse'', ''files''])
          \<lparr>rq_method = ''POST'', rq_origin = ''https://portal'', rq_search = ''?user_id=7'',
           rq_headers = [''host'' \<mapsto> ''portal''], rq_body = ''x''\<rparr>)) ''host''
     = None"
  using proxy_forwards [of "Val ''http://backend:8000/''"
      "SessionIs (Some \<lparr>s_user = Null, s_accessToken = Val ''tok''\<rparr>)"
      "\<lambda>out. Inr \<lparr>status = 201, r_headers = Map.empty, r_body = ''{}''\<rparr>"
      "Val [''api'', ''parse'', ''files'']"
      "\<lparr>rq_method = ''POST'', rq_origin = ''https://portal'', rq_search = ''?user_id=7'',
        rq_headers = [''host'' \<mapsto> ''portal''], rq_body = ''x''\<rparr>"]
  by (simp add: strip_trailing_slash_def)

subsection \<open>Credentials sign-in\<close>



subsection \<open>Token refresh\<close>

text \<open>
  C6, as the claim states it, fails: with the expiry 0 that a failed refresh stores, the
  current time is past the expiry minus 60 seconds, and the callback attempts no
  refresh.
\<close>

theorem jwt_zero_expiry_counterexample:
  "accessTokenExpires token0 = Val 0
   \<and> (1000 :: int) > 0 - 60000
   \<and> jwt Undefined (\<lambda>u r. Resolves True (Inr (JsonObject payload0))) 1000 1000 1000 token0 None
       = (token0, [])"
  by (simp add: jwt_def token0_def)

lemma jwt_keeps_zero_expiry:
  "accessTokenExpires tk = Val 0 \<Longrightarrow> jwt b n t1 t2 t3 tk None = (tk, [])"
  by (simp add: jwt_def)

lemma session_callback_null_token:
  "accessToken tk = Null \<Longrightarrow> s_accessToken (session_callback s tk) = Null"
  by (simp add: session_callback_def Let_def split: nullable.splits)

lemma forward_headers_null_token:
  "accessToken tk = Null \<Longrightarrow>
     forward_headers (SessionIs (Some (session_callback s tk))) rq
       = ((rq_headers rq)(''host'' := None))(''content-length'' := None)"
  by (simp add: forward_headers_def Let_def session_callback_null_token)

text \<open>
  C6, amended. Whenever a nonzero access-token expiry is stored and the current time is
  past it minus 60 seconds, the \<open>jwt\<close> callback attempts one token refresh; if that
  request throws or returns a non-ok status, the resulting token has \<open>accessToken\<close> null
  and \<open>accessTokenExpires\<close> 0. From then on, until the next sign-in, the callback
  returns that token as it is and attempts no further refresh, the session exposes a
  null access token, and the proxy forwards the request headers (less \<open>host\<close> and
  \<open>content-length\<close>) without setting an \<open>authorization\<close> header.
\<close>

theorem jwt_refresh_failure:
  assumes "accessTokenExpires token = Val e" and "e \<noteq> 0" and "t_check > e - 60000"
  shows "snd (jwt backend_url net t_signin t_check t_refresh token None) = [refreshToken token]
       \<and> (request_failed (net (refresh_url backend_url) (refreshToken token)) \<longrightarrow>
            accessToken (fst (jwt backend_url net t_signin t_check t_refresh token None)) = Null
          \<and> accessTokenExpires (fst (jwt backend_url net t_signin t_check t_refresh token None)) = Val 0
          \<and> (\<forall>net' t1 t2 t3.
                jwt backend_url net' t1 t2 t3
                    (fst (jwt backend_url net t_signin t_check t_refresh token None)) None
                  = (fst (jwt backend_url net t_signin t_check t_refresh token None), []))
          \<and> (\<forall>session request.
                s_accessToken (session_callback session
                    (fst (jwt backend_url net t_signin t_check t_refresh token None))) = Null
              \<and> forward_headers (SessionIs (Some (session_callback session
                    (fst (jwt backend_url net t_signin t_check t_refresh token None))))) request
                  = ((rq_headers request)(''host'' := None))(''content-length'' := None)))"
proof -
  let ?j = "jwt backend_url net t_signin t_check t_refresh token None"
  have j: "?j = (refreshAccessToken backend_url net t_refresh token, [refreshToken token])"
    using assms by (simp add: jwt_def)
  have attempt: "snd ?j = [refreshToken token]"
    by (simp add: j)
  have rest: "accessToken (fst ?j) = Null \<and> accessTokenExpires (fst ?j) = Val 0
      \<and> (\<forall>net' t1 t2 t3. jwt backend_url net' t1 t2 t3 (fst ?j) None = (fst ?j, []))
      \<and> (\<forall>session request. s_accessToken (session_callback session (fst ?j)) = Null
          \<and> forward_headers (SessionIs (Some (session_callback session (fst ?j)))) request
              = ((rq_headers request)(''host'' := None))(''content-length'' := None))"
    if failed: "request_failed (net (refresh_url backend_url) (refreshToken token))"
  proof -
    have f: "fst ?j = token\<lparr>accessToken := Null, accessTokenExpires := Val 0\<rparr>"
      using failed
      by (cases "net (refresh_url backend_url) (refreshToken token)")
         (simp_all add: j refreshAccessToken_def Let_def)
    have a: "accessToken (fst ?j) = Null" and b: "accessTokenExpires (fst ?j) = Val 0"
      by (simp_all add: f)
    have c: "\<forall>net' t1 t2 t3. jwt backend_url net' t1 t2 t3 (fst ?j) None = (fst ?j, [])"
      using jwt_keeps_zero_expiry [OF b] by blast
    have d: "\<forall>session request. s_accessToken (session_callback session (fst ?j)) = Null
          \<and> forward_headers (SessionIs (Some (session_callback session (fst ?j)))) request
              = ((rq_headers request)(''host'' := None))(''content-length'' := None)"
      using session_callback_null_token [OF a] forward_headers_null_token [OF a] by blast
    from a b c d show ?thesis by blast
  qed
  from attempt rest show ?thesis by blast
qed

theorem jwt_refresh_failure_witness:
  "snd (jwt Undefined (\<lambda>u r. Resolves False (Inr JsonNull)) 0 1750000 1750001 token1 None)
     = [Val ''r1'']
   \<and> fst (jwt Undefined (\<lambda>u r. Resolves False (Inr JsonNull)) 0 1750000 1750001 token1 None)
     = token0
   \<and> forward_headers (SessionIs (Some (session_callback \<lparr>s_user = Null, s_accessToken = Val ''tok''\<rparr>
         (fst (jwt Undefined (\<lambda>u r. Resolves False (Inr JsonNull)) 0 1750000 1750001 token1 None)))))
       request0 ''authorization'' = None"
  using jwt_refresh_failure [of token1 1800000 1750000 Undefined
      "\<lambda>u r. Resolves False (Inr JsonNull)" 0 1750001]
  by (simp add: token1_def token0_def request0_def jwt_def refreshAccessToken_def)

subsection \<open>The document parser: streams and the loop\<close>



lemma run_stream_Cons:
  "run_stream i (e # es) pr =
     (if fst (fst (on_event i e pr)) then on_event i e pr
      else (fst (run_stream i es (snd (fst (on_event i e pr)))),
            snd (on_event i e pr) @ snd (run_stream i es (snd (fst (on_event i e pr))))))"
  by (auto split: prod.splits bool.splits)


lemma on_event_closed: "fst (fst (on_event i e pr)) \<longleftrightarrow> ends [e]"
  by (cases "(i, e, pr)" rule: on_event.cases) (auto split: option.splits)

lemma ends_Cons: "ends (e # es) \<longleftrightarrow> ends [e] \<or> ends es"
  by (cases "e # es" rule: ends.cases) auto

lemma run_stream_closed: "fst (fst (run_stream i es pr)) \<longleftrightarrow> ends es"
proof (induction es arbitrary: pr)
  case Nil
  show ?case by simp
next
  case (Cons e es)
  show ?case
    using Cons.IH [of "snd (fst (on_event i e pr))"] on_event_closed [of i e pr]
      ends_Cons [of e es]
    by (simp add: run_stream_Cons del: run_stream.simps(2))
qed

lemma on_event_without_result:
  "ends_without_result [e] \<Longrightarrow> fst (on_event i e None) = (True, None)"
  by (cases "(i, e, None :: ParseResult option)" rule: on_event.cases)
     (auto split: option.splits if_splits)

lemma run_stream_without_result:
  "ends_without_result es \<Longrightarrow> fst (run_stream i es None) = (True, None)"
proof (induction es rule: ends_without_result.induct)
  case 1
  then show ?case by simp
next
  case (2 es)
  show ?case by simp
next
  case (3 es)
  then show ?case by (simp add: run_stream_Cons del: run_stream.simps(2))
next
  case (4 d es)
  then show ?case
    by (cases "d_result d")
       (auto simp: run_stream_Cons simp del: run_stream.simps(2) split: if_splits)
qed

lemma on_event_sequential:
  "sequential (Some i) (snd (on_event i e pr) @ tr)
     = sequential (if fst (fst (on_event i e pr)) then None else Some i) tr"
  by (cases "(i, e, pr)" rule: on_event.cases) (auto split: option.splits)

lemma run_stream_sequential:
  "sequential (Some i) (snd (run_stream i es pr) @ tr)
     = sequential (if fst (fst (run_stream i es pr)) then None else Some i) tr"
proof (induction es arbitrary: pr tr)
  case Nil
  show ?case by simp
next
  case (Cons e es)
  show ?case
    using Cons.IH [of "snd (fst (on_event i e pr))" tr]
      on_event_sequential [of i e pr "snd (run_stream i es (snd (fst (on_event i e pr)))) @ tr"]
      on_event_sequential [of i e pr tr]
    by (simp add: run_stream_Cons del: run_stream.simps(2))
qed

lemma on_event_close: "CloseStream j \<in> set (snd (on_event i e pr)) \<Longrightarrow> j = i \<and> ends [e]"
  by (cases "(i, e, pr)" rule: on_event.cases) (auto split: option.splits if_splits)

lemma run_stream_close: "CloseStream j \<in> set (snd (run_stream i es pr)) \<Longrightarrow> j = i \<and> ends es"
proof (induction es arbitrary: pr)
  case Nil
  then show ?case by simp
next
  case (Cons e es)
  then show ?case
    using on_event_close [of j i e pr] ends_Cons [of e es]
    by (auto simp: run_stream_Cons simp del: run_stream.simps(2) split: if_splits)
qed

text \<open>The three ways an iteration of the loop goes.\<close>

lemma process_loop_open:
  assumes "run_stream i (streams i) None = ((False, pr), eff)"
  shows "process_loop u streams i (f # fs)
           = ([UpdateItem i MarkProcessing, OpenStream i (key f) u] @ eff, None)"
  using assms by simp

lemma process_loop_failed:
  assumes "run_stream i (streams i) None = ((True, None), eff)"
  shows "process_loop u streams i (f # fs)
           = ([UpdateItem i MarkProcessing, OpenStream i (key f) u] @ eff
                @ [UpdateItem i (MarkFailed no_result_message)]
                @ fst (process_loop u streams (Suc i) fs),
              map_option ((#) \<lparr>e_filename = s3_filename f, e_status = EntryError,
                                e_chunks = Undefined, e_error = Val no_result_message\<rparr>)
                (snd (process_loop u streams (Suc i) fs)))"
  using assms by (simp split: prod.splits)

lemma process_loop_success:
  assumes "run_stream i (streams i) None = ((True, Some r), eff)"
  shows "process_loop u streams i (f # fs)
           = ([UpdateItem i MarkProcessing, OpenStream i (key f) u] @ eff
                @ [UpdateItem i (MarkSuccess r)]
                @ fst (process_loop u streams (Suc i) fs),
              map_option ((#) \<lparr>e_filename = s3_filename f, e_status = EntrySuccess,
                                e_chunks = chunks_created r, e_error = Undefined\<rparr>)
                (snd (process_loop u streams (Suc i) fs)))"
  using assms by (simp split: prod.splits)

declare process_loop.simps(2) [simp del]

lemma run_stream_cases:
  obtains (still_open) pr eff where "run_stream i es None = ((False, pr), eff)" "\<not> ends es"
  | (failed) eff where "run_stream i es None = ((True, None), eff)" "ends es"
  | (success) r eff where "run_stream i es None = ((True, Some r), eff)" "ends es"
      "\<not> ends_without_result es"
proof -
  obtain c pr eff where rs: "run_stream i es None = ((c, pr), eff)"
    by (metis surj_pair)
  have c: "c \<longleftrightarrow> ends es"
    using run_stream_closed [of i es None] rs by simp
  show thesis
  proof (cases c)
    case False
    with rs c show ?thesis by (auto intro: still_open)
  next
    case True
    show ?thesis
    proof (cases pr)
      case None
      with rs c True show ?thesis by (auto intro: failed)
    next
      case (Some r)
      have "\<not> ends_without_result es"
        using run_stream_without_result [of es i] rs Some by auto
      with rs c True Some show ?thesis by (auto intro: success)
    qed
  qed
qed




lemma process_loop_results:
  "snd (process_loop u streams k fs) = Some rs \<Longrightarrow> map e_filename rs = map s3_filename fs"
proof (induction fs arbitrary: k rs)
  case Nil
  then show ?case by simp
next
  case (Cons f fs)
  show ?case
  proof (cases rule: run_stream_cases [of k "streams k"])
    case (still_open pr eff)
    with Cons.prems show ?thesis
      unfolding process_loop_open [of k streams, OF still_open(1)] by simp
  next
    case (failed eff)
    with Cons.prems Cons.IH [of "Suc k"] show ?thesis
      unfolding process_loop_failed [of k streams, OF failed(1)] by auto
  next
    case (success r eff)
    with Cons.prems Cons.IH [of "Suc k"] show ?thesis
      unfolding process_loop_success [of k streams, OF success(1)] by auto
  qed
qed


lemma processSelectedFiles_run:
  assumes "truthy_str userId" and "sel \<noteq> []"
  shows "fst (processSelectedFiles userId sel s3 streams t)
           = [SetIsProcessing True, SetFileItems (map pending_item (filesToProcess_of sel s3))]
             @ fst (process_loop (coalesce userId []) streams 0 (filesToProcess_of sel s3))
             @ (case snd (process_loop (coalesce userId []) streams 0 (filesToProcess_of sel s3)) of
                  None \<Rightarrow> []
                | Some rs \<Rightarrow> [SetReport (make_report (filesToProcess_of sel s3) rs t),
                              SetIsProcessing False])"
    and "snd (processSelectedFiles userId sel s3 streams t)
           = map_option (\<lambda>rs. make_report (filesToProcess_of sel s3) rs t)
               (snd (process_loop (coalesce userId []) streams 0 (filesToProcess_of sel s3)))"
  using assms
  by (auto simp: processSelectedFiles_def Let_def split: prod.splits option.splits)



subsection \<open>The report\<close>

lemma foldl_chunks:
  "foldl (\<lambda>sum r. sum + coalesce (e_chunks r) 0) a rs
     = a + sum_list (map (\<lambda>r. coalesce (e_chunks r) 0) rs)"
  by (induction rs arbitrary: a) simp_all

lemma entry_error_iff: "e_status r = EntryError \<longleftrightarrow> \<not> e_status r = EntrySuccess"
  by (cases "e_status r") simp_all

text \<open>
  What holds of every report: the counts add up to the number of files processed, the
  entries are those of the files processed, in order, and the chunk total is the sum
  over the successful entries (an absent count as 0).
\<close>

lemma report_invariants:
  assumes "snd (processSelectedFiles userId sel s3 streams t) = Some r"
  shows "successful r + failed r = total_files r
       \<and> total_files r = length (filesToProcess_of sel s3)
       \<and> map e_filename (report_files r) = map s3_filename (filesToProcess_of sel s3)
       \<and> total_chunks r = sum_list (map (\<lambda>e. coalesce (e_chunks e) 0)
                             (filter (\<lambda>e. e_status e = EntrySuccess) (report_files r)))"
proof -
  from assms have u: "truthy_str userId" and s: "sel \<noteq> []"
    by (auto simp: processSelectedFiles_def split: if_splits)
  let ?fs = "filesToProcess_of sel s3"
  from assms obtain rs where rs: "snd (process_loop (coalesce userId []) streams 0 ?fs) = Some rs"
      and r: "r = make_report ?fs rs t"
    unfolding processSelectedFiles_run(2) [OF u s] by auto
  have names: "map e_filename rs = map s3_filename ?fs"
    using process_loop_results [OF rs] .
  then have len: "length rs = length ?fs"
    by (metis length_map)
  have "length (filter (\<lambda>r. e_status r = EntrySuccess) rs)
          + length (filter (\<lambda>r. e_status r = EntryError) rs) = length rs"
    using sum_length_filter_compl [of "\<lambda>r. e_status r = EntrySuccess" rs]
    by (simp add: entry_error_iff)
  with names len show ?thesis
    unfolding r by (simp add: make_report_def foldl_chunks)
qed


subsection \<open>Requests are not cancelled\<close>

lemma sequential_append_plain:
  "opened rest = [] \<Longrightarrow> (\<forall>j. CloseStream j \<notin> set rest) \<Longrightarrow> sequential cur (rest @ tr) = sequential cur tr"
  by (induction cur rest rule: sequential.induct) auto

lemma process_loop_sequential:
  "sequential None (fst (process_loop u streams k fs) @ rest)
     = (snd (process_loop u streams k fs) = None \<or> sequential None rest)"
  if "opened rest = []" and "\<forall>j. CloseStream j \<notin> set rest"
proof (induction fs arbitrary: k)
  case Nil
  show ?case by simp
next
  case (Cons f fs)
  show ?case
  proof (cases rule: run_stream_cases [of k "streams k"])
    case (still_open pr eff)
    have "sequential (Some k) (eff @ rest) = sequential (Some k) rest"
      using run_stream_sequential [of k "streams k" None rest] still_open(1) by simp
    also have "\<dots> = sequential (Some k) (rest @ [])"
      by simp
    also have "\<dots>"
      using sequential_append_plain [OF that, of "Some k" "[]"] by simp
    finally show ?thesis
      unfolding process_loop_open [of k streams, OF still_open(1)] by simp
  next
    case (failed eff)
    have "sequential (Some k) (eff @ xs) = sequential None xs" for xs
      using run_stream_sequential [of k "streams k" None xs] failed(1) by simp
    then show ?thesis
      unfolding process_loop_failed [of k streams, OF failed(1)]
      using Cons.IH [of "Suc k"] by simp
  next
    case (success r eff)
    have "sequential (Some k) (eff @ xs) = sequential None xs" for xs
      using run_stream_sequential [of k "streams k" None xs] success(1) by simp
    then show ?thesis
      unfolding process_loop_success [of k streams, OF success(1)]
      using Cons.IH [of "Suc k"] by simp
  qed
qed

lemma process_loop_close:
  "CloseStream j \<in> set (fst (process_loop u streams k fs)) \<Longrightarrow> ends (streams j)"
proof (induction fs arbitrary: k)
  case Nil
  then show ?case by simp
next
  case (Cons f fs)
  have eff: "CloseStream j \<in> set (snd (run_stream k (streams k) None)) \<Longrightarrow> ends (streams j)"
    using run_stream_close [of j k "streams k" None] by auto
  show ?case
  proof (cases rule: run_stream_cases [of k "streams k"])
    case (still_open pr eff)
    with Cons.prems eff show ?thesis
      unfolding process_loop_open [of k streams, OF still_open(1)] by auto
  next
    case (failed eff)
    with Cons.prems eff Cons.IH [of "Suc k"] show ?thesis
      unfolding process_loop_failed [of k streams, OF failed(1)] by auto
  next
    case (success r eff)
    with Cons.prems eff Cons.IH [of "Suc k"] show ?thesis
      unfolding process_loop_success [of k streams, OF success(1)] by auto
  qed
qed

text \<open>
  C9. The program cancels no request in flight. In every run of \<open>processSelectedFiles\<close>
  a connection is opened only while no other is open, so the loop starts a file only
  after the connection of the one before is closed; a connection is closed only when
  its stream has ended by itself (an error message, a result, or the loss of the
  connection). And \<open>handleSubmit\<close> never aborts its upload request.
\<close>

theorem no_request_cancelled:
  fixes userId selectedFiles s3Files streams processingTime
  shows "sequential None (fst (processSelectedFiles userId selectedFiles s3Files streams processingTime))
   \<and> (\<forall>i. CloseStream i
            \<in> set (fst (processSelectedFiles userId selectedFiles s3Files streams processingTime))
          \<longrightarrow> ends (streams i))
   \<and> XhrAbort \<notin> set (handleSubmit public_backend_url uploadUserId upload_files percentages outcome)"
proof -
  let ?P = "processSelectedFiles userId selectedFiles s3Files streams processingTime"
  let ?fs = "filesToProcess_of selectedFiles s3Files"
  let ?L = "process_loop (coalesce userId []) streams 0 ?fs"
  have parser: "sequential None (fst ?P) \<and> (\<forall>i. CloseStream i \<in> set (fst ?P) \<longrightarrow> ends (streams i))"
  proof (cases "truthy_str userId \<and> selectedFiles \<noteq> []")
    case False
    then show ?thesis
      by (auto simp: processSelectedFiles_def)
  next
    case True
    then have u: "truthy_str userId" and s: "selectedFiles \<noteq> []"
      by simp_all
    let ?rest = "case snd ?L of None \<Rightarrow> []
               | Some rs \<Rightarrow> [SetReport (make_report ?fs rs processingTime), SetIsProcessing False]"
    have rest: "opened ?rest = []" "\<forall>j. CloseStream j \<notin> set ?rest" "sequential None ?rest"
      by (simp_all split: option.splits)
    have "sequential None (fst ?L @ ?rest)"
      using process_loop_sequential [OF rest(1,2), of u streams 0 ?fs for u] rest(3) by simp
    then have a: "sequential None (fst ?P)"
      unfolding processSelectedFiles_run(1) [OF u s] by simp
    have b: "ends (streams i)" if "CloseStream i \<in> set (fst ?P)" for i
    proof -
      from that rest(2) have "CloseStream i \<in> set (fst ?L)"
        unfolding processSelectedFiles_run(1) [OF u s] by auto
      then show ?thesis by (rule process_loop_close)
    qed
    from a b show ?thesis by blast
  qed
  have upload: "XhrAbort \<notin> set (handleSubmit public_backend_url uploadUserId upload_files percentages outcome)"
    by (auto simp: handleSubmit_def split: xhr_outcome.splits)
  from parser upload show ?thesis by blast
qed

theorem no_request_cancelled_witness:
  "sequential None (fst (processSelectedFiles (Val ''u1'') [key s3file0, key s3file1]
       [s3file0, s3file1] streams0 ''1.20s''))
   \<and> CloseStream 1 \<in> set (fst (processSelectedFiles (Val ''u1'') [key s3file0, key s3file1]
       [s3file0, s3file1] streams0 ''1.20s''))
   \<and> ends (streams0 1)
   \<and> XhrAbort \<notin> set (handleSubmit Undefined (Val ''u1'') [''sat.pdf''] [40, 100] (Loaded 200))"
  using no_request_cancelled [of "Val ''u1''" "[key s3file0, key s3file1]"
      "[s3file0, s3file1]" streams0 "''1.20s''" Undefined "Val ''u1''" "[''sat.pdf'']"
      "[40, 100]" "Loaded 200"]
  by (simp add: processSelectedFiles_def filesToProcess_of_def s3file0_def s3file1_def
        streams0_def process_loop.simps(2) Let_def)

subsection \<open>The status of an item\<close>

lemma apply_parser_effect_length:
  "\<not> sets_items e \<Longrightarrow> length (apply_parser_effect s e) = length s"
  by (cases e) simp_all

lemma apply_parser_effect_untouched:
  "\<not> sets_items e \<Longrightarrow> \<not> updates_item i e \<Longrightarrow> apply_parser_effect s e ! i = s ! i"
  by (cases e) simp_all

lemma final_length:
  "\<forall>e \<in> set tr. \<not> sets_items e \<Longrightarrow> length (foldl apply_parser_effect s tr) = length s"
  by (induction tr arbitrary: s) (simp_all add: apply_parser_effect_length)

lemma states_after_append:
  "states_after s (a @ b) = states_after s a @ states_after (foldl apply_parser_effect s a) b"
  by (induction a arbitrary: s) simp_all

lemma status_history_append:
  "status_history i s (a @ b)
     = status_history i s a @ status_history i (foldl apply_parser_effect s a) b"
  by (simp add: status_history_def states_after_append)

lemma status_history_Cons:
  "\<not> sets_items e \<Longrightarrow> i < length s \<Longrightarrow>
     status_history i s (e # tr)
       = item_status (apply_parser_effect s e ! i) # status_history i (apply_parser_effect s e) tr"
  by (simp add: status_history_def apply_parser_effect_length)

lemma status_history_last:
  "\<forall>e \<in> set tr. \<not> sets_items e \<Longrightarrow> i < length s \<Longrightarrow>
     item_status (foldl apply_parser_effect s tr ! i) = last (item_status (s ! i) # status_history i s tr)"
proof (induction tr arbitrary: s)
  case Nil
  show ?case by (simp add: status_history_def)
next
  case (Cons e tr)
  from Cons.prems have e: "\<not> sets_items e" and tr: "\<forall>e \<in> set tr. \<not> sets_items e"
    by simp_all
  have "i < length (apply_parser_effect s e)"
    using Cons.prems(2) e by (simp add: apply_parser_effect_length)
  from Cons.IH [OF tr this] show ?case
    by (simp add: status_history_Cons [OF e Cons.prems(2)])
qed

lemma status_history_untouched:
  assumes "\<forall>e \<in> set tr. \<not> sets_items e \<and> \<not> updates_item i e" and "i < length s"
  shows "status_history i s tr = replicate (length tr) (item_status (s ! i))"
  using assms
proof (induction tr arbitrary: s)
  case Nil
  show ?case by (simp add: status_history_def)
next
  case (Cons e tr)
  from Cons.prems have e: "\<not> sets_items e" "\<not> updates_item i e"
    and tr: "\<forall>e \<in> set tr. \<not> sets_items e \<and> \<not> updates_item i e"
    by simp_all
  have len: "i < length (apply_parser_effect s e)"
    using Cons.prems(2) e(1) by (simp add: apply_parser_effect_length)
  show ?case
    using Cons.IH [OF tr len]
    by (simp add: status_history_Cons [OF e(1) Cons.prems(2)] apply_parser_effect_untouched [OF e])
qed

lemma remdups_adj_segments:
  "remdups_adj (x # xs @ ys) = remdups_adj (x # xs) @ tl (remdups_adj (last (x # xs) # ys))"
  using remdups_adj_append'' [of "x # xs" ys] remdups_adj_Cons' [of "last (x # xs)" ys]
  by simp

lemma remdups_adj_stutter: "remdups_adj (x # replicate n x) = [x]"
  using remdups_adj_replicate [of "Suc n" x] by simp

lemma on_event_effects:
  "e' \<in> set (snd (on_event k e pr)) \<Longrightarrow> \<not> sets_items e' \<and> (\<forall>j. updates_item j e' \<longrightarrow> j = k)"
  by (cases "(k, e, pr)" rule: on_event.cases) (auto split: option.splits if_splits)

lemma run_stream_effects:
  "e' \<in> set (snd (run_stream k es pr)) \<Longrightarrow> \<not> sets_items e' \<and> (\<forall>j. updates_item j e' \<longrightarrow> j = k)"
proof (induction es arbitrary: pr)
  case Nil
  then show ?case by simp
next
  case (Cons e es)
  then show ?case
    using on_event_effects [of e' k e pr]
    by (auto simp: run_stream_Cons simp del: run_stream.simps(2) split: if_splits)
qed

lemma process_loop_effects:
  "e \<in> set (fst (process_loop u streams k fs)) \<Longrightarrow>
     \<not> sets_items e \<and> (\<forall>j. updates_item j e \<longrightarrow> k \<le> j)"
proof (induction fs arbitrary: k)
  case Nil
  then show ?case by simp
next
  case (Cons f fs)
  have eff: "e \<in> set (snd (run_stream k (streams k) None)) \<Longrightarrow>
      \<not> sets_items e \<and> (\<forall>j. updates_item j e \<longrightarrow> k \<le> j)"
    using run_stream_effects [of e k "streams k" None] by auto
  have rest: "e \<in> set (fst (process_loop u streams (Suc k) fs)) \<Longrightarrow>
      \<not> sets_items e \<and> (\<forall>j. updates_item j e \<longrightarrow> k \<le> j)"
    using Cons.IH [of "Suc k"] by auto
  show ?case
  proof (cases rule: run_stream_cases [of k "streams k"])
    case (still_open pr eff)
    with Cons.prems eff show ?thesis
      unfolding process_loop_open [of k streams, OF still_open(1)] by auto
  next
    case (failed eff)
    with Cons.prems eff rest show ?thesis
      unfolding process_loop_failed [of k streams, OF failed(1)] by auto
  next
    case (success r eff)
    with Cons.prems eff rest show ?thesis
      unfolding process_loop_success [of k streams, OF success(1)] by auto
  qed
qed

lemma on_event_status:
  assumes "k < length s" and "item_status (s ! k) = Processing"
  shows "if fst (fst (on_event k e None))
         then remdups_adj (Processing # status_history k s (snd (on_event k e None))) = [Processing]
            \<or> remdups_adj (Processing # status_history k s (snd (on_event k e None)))
                = [Processing, ErrorStatus]
              \<and> snd (fst (on_event k e None)) = None
         else snd (fst (on_event k e None)) = None
            \<and> remdups_adj (Processing # status_history k s (snd (on_event k e None))) = [Processing]"
  using assms
  by (cases "(k, e, None :: ParseResult option)" rule: on_event.cases)
     (auto simp: status_history_def split: option.splits)

lemma run_stream_status:
  assumes "k < length s" and "item_status (s ! k) = Processing"
  shows "remdups_adj (Processing # status_history k s (snd (run_stream k es None))) = [Processing]
       \<or> remdups_adj (Processing # status_history k s (snd (run_stream k es None)))
           = [Processing, ErrorStatus]
         \<and> snd (fst (run_stream k es None)) = None"
  using assms
proof (induction es arbitrary: s)
  case Nil
  show ?case by (simp add: status_history_def)
next
  case (Cons e es)
  let ?ev = "on_event k e None"
  show ?case
  proof (cases "fst (fst ?ev)")
    case True
    with on_event_status [OF Cons.prems, of e] show ?thesis
      by (simp add: run_stream_Cons del: run_stream.simps(2) on_event.simps)
  next
    case False
    with on_event_status [OF Cons.prems, of e]
    have pr: "snd (fst ?ev) = None"
      and h: "remdups_adj (Processing # status_history k s (snd ?ev)) = [Processing]"
      by simp_all
    let ?s1 = "foldl apply_parser_effect s (snd ?ev)"
    have plain: "\<forall>e' \<in> set (snd ?ev). \<not> sets_items e'"
      using on_event_effects [of _ k e None] by blast
    have len: "k < length ?s1"
      using final_length [OF plain] Cons.prems(1) by simp
    have "item_status (?s1 ! k) = last (Processing # status_history k s (snd ?ev))"
      using status_history_last [OF plain Cons.prems(1)] Cons.prems(2) by simp
    also have "\<dots> = last (remdups_adj (Processing # status_history k s (snd ?ev)))"
      by (simp only: last_remdups_adj)
    also have "\<dots> = Processing"
      unfolding h by simp
    finally have st: "item_status (?s1 ! k) = Processing" .
    have last: "last (Processing # status_history k s (snd ?ev)) = Processing"
      using h by (metis last_remdups_adj last.simps)
    have "remdups_adj (Processing # status_history k s (snd (run_stream k (e # es) None)))
            = remdups_adj (Processing # status_history k ?s1 (snd (run_stream k es None)))"
      using False pr h last
        remdups_adj_segments [of Processing "status_history k s (snd ?ev)"
          "status_history k ?s1 (snd (run_stream k es None))"]
      by (simp add: run_stream_Cons status_history_append del: run_stream.simps(2) on_event.simps
            remdups_adj.simps)
    moreover have "snd (fst (run_stream k (e # es) None)) = snd (fst (run_stream k es None))"
      using False pr by (simp add: run_stream_Cons del: run_stream.simps(2) on_event.simps)
    ultimately show ?thesis
      using Cons.IH [OF len st] by simp
  qed
qed

text \<open>One file's turn, from pending: processing, then the final status.\<close>

lemma file_turn_status:
  assumes k: "k < length s" and p: "item_status (s ! k) = Pending"
    and eff: "eff = snd (run_stream k es None)"
    and fin: "\<And>x. item_status (apply_update upd x) = final" "final = Success \<or> final = ErrorStatus"
    and res: "snd (fst (run_stream k es None)) = None \<longrightarrow> final = ErrorStatus"
      "snd (fst (run_stream k es None)) \<noteq> None \<longrightarrow> final = Success"
  shows "remdups_adj (Pending # status_history k s
           ([UpdateItem k MarkProcessing, OpenStream k key_k u] @ eff @ [UpdateItem k upd]))
         = [Pending, Processing, final]"
proof -
  let ?s1 = "foldl apply_parser_effect s [UpdateItem k MarkProcessing, OpenStream k key_k u]"
  have len1: "k < length ?s1" and st1: "item_status (?s1 ! k) = Processing"
    using k by simp_all
  have h1: "status_history k s [UpdateItem k MarkProcessing, OpenStream k key_k u]
              = [Processing, Processing]"
    using k by (simp add: status_history_def)
  let ?h = "status_history k ?s1 eff"
  let ?s2 = "foldl apply_parser_effect ?s1 eff"
  have plain: "\<forall>e \<in> set eff. \<not> sets_items e"
    unfolding eff using run_stream_effects [of _ k es None] by blast
  have len2: "k < length ?s2"
    using final_length [OF plain, of ?s1] len1 by simp
  have h3: "status_history k ?s2 [UpdateItem k upd] = [final]"
    using len2 fin(1) by (simp add: status_history_def)
  have whole: "status_history k s
        ([UpdateItem k MarkProcessing, OpenStream k key_k u] @ eff @ [UpdateItem k upd])
      = [Processing, Processing] @ ?h @ [final]"
    unfolding status_history_append h1 h3 ..
  define h where "h = ?h"
  have r: "remdups_adj (Processing # h) = [Processing]
         \<or> remdups_adj (Processing # h) = [Processing, ErrorStatus] \<and> final = ErrorStatus"
    unfolding h_def using run_stream_status [OF len1 st1, of es] res(1) unfolding eff by blast
  have lr: "last (Processing # h) = last (remdups_adj (Processing # h))"
    by (simp only: last_remdups_adj)
  have "remdups_adj (Processing # h @ [final]) = [Processing, final]"
  proof -
    from r consider
      (quiet) "remdups_adj (Processing # h) = [Processing]"
      | (errored) "remdups_adj (Processing # h) = [Processing, ErrorStatus]" "final = ErrorStatus"
      by blast
    then show ?thesis
    proof cases
      case quiet
      then have "last (Processing # h) = Processing"
        unfolding lr by simp
      with quiet fin(2) show ?thesis
        unfolding remdups_adj_segments [of Processing h "[final]"] by auto
    next
      case errored
      then have "last (Processing # h) = ErrorStatus"
        unfolding lr by simp
      with errored show ?thesis
        unfolding remdups_adj_segments [of Processing h "[final]"] by simp
    qed
  qed
  then have "remdups_adj (Processing # ?h @ [final]) = [Processing, final]"
    unfolding h_def .
  then show ?thesis
    unfolding whole by simp
qed

lemma process_loop_status:
  assumes "snd (process_loop u streams k fs) = Some rs"
    and "k + length fs \<le> length s"
    and "\<forall>j. k \<le> j \<and> j < k + length fs \<longrightarrow> item_status (s ! j) = Pending"
    and "k \<le> i" and "i < k + length fs"
  shows "remdups_adj (Pending # status_history i s (fst (process_loop u streams k fs)))
           = [Pending, Processing,
              if e_status (rs ! (i - k)) = EntrySuccess then Success else ErrorStatus]"
  using assms
proof (induction fs arbitrary: k s rs)
  case Nil
  then show ?case by simp
next
  case (Cons f fs)
  let ?rest = "fst (process_loop u streams (Suc k) fs)"
  have turn: ?case
    if tr: "fst (process_loop u streams k (f # fs)) = turn @ ?rest"
      and turn: "turn = [UpdateItem k MarkProcessing, OpenStream k (key f) u]
                   @ snd (run_stream k (streams k) None) @ [UpdateItem k upd]"
      and own: "remdups_adj (Pending # status_history k s turn) = [Pending, Processing, final]"
      and rs: "rs = entry # rs'" "snd (process_loop u streams (Suc k) fs) = Some rs'"
      and entry: "(if e_status entry = EntrySuccess then Success else ErrorStatus) = final"
    for turn upd final entry rs'
  proof -
    have k: "k < length s"
      using Cons.prems(2) by simp
    have turn_plain: "\<forall>e \<in> set turn. \<not> sets_items e"
      and turn_own: "\<forall>e \<in> set turn. \<forall>j. updates_item j e \<longrightarrow> j = k"
      unfolding turn using run_stream_effects [of _ k "streams k" None] by auto
    let ?s' = "foldl apply_parser_effect s turn"
    have len': "length ?s' = length s"
      using final_length [OF turn_plain] .
    have rest: "\<forall>e \<in> set ?rest. \<not> sets_items e \<and> (\<forall>j. updates_item j e \<longrightarrow> Suc k \<le> j)"
      using process_loop_effects [of _ u streams "Suc k" fs] by blast
    show ?thesis
    proof (cases "i = k")
      case True
      have rest_k: "\<forall>e \<in> set ?rest. \<not> sets_items e \<and> \<not> updates_item k e"
        using rest by fastforce
      have "item_status (?s' ! k) = last (Pending # status_history k s turn)"
        using status_history_last [OF turn_plain k] Cons.prems(3) by simp
      also have "\<dots> = last (remdups_adj (Pending # status_history k s turn))"
        by (simp only: last_remdups_adj)
      also have "\<dots> = final"
        unfolding own by simp
      finally have st: "item_status (?s' ! k) = final" .
      then have l: "last (Pending # status_history k s turn) = final"
        using status_history_last [OF turn_plain k] Cons.prems(3) by simp
      have h: "status_history k ?s' ?rest = replicate (length ?rest) final"
        using status_history_untouched [OF rest_k, of ?s'] k len' st by simp
      have "remdups_adj (Pending # status_history k s (turn @ ?rest)) = [Pending, Processing, final]"
        unfolding status_history_append h
          remdups_adj_segments [of Pending "status_history k s turn"] l own
        by (simp only: remdups_adj_stutter) simp
      then show ?thesis
        unfolding tr True rs(1) using entry by simp
    next
      case False
      with Cons.prems(4,5) have i: "Suc k \<le> i" "i < Suc k + length fs" "i < length s"
        using Cons.prems(2) by simp_all
      have turn_i: "\<forall>e \<in> set turn. \<not> sets_items e \<and> \<not> updates_item i e"
        using turn_plain turn_own False by blast
      have pend: "item_status (s ! i) = Pending"
        using Cons.prems(3,4,5) by blast
      have h: "status_history i s turn = replicate (length turn) Pending"
        using status_history_untouched [OF turn_i i(3)] pend by simp
      have keep: "item_status (?s' ! j) = Pending" if "Suc k \<le> j" "j < Suc k + length fs" for j
      proof -
        have "\<forall>e \<in> set turn. \<not> sets_items e \<and> \<not> updates_item j e"
          using turn_plain turn_own that(1) by fastforce
        moreover have "j < length s"
          using that(2) Cons.prems(2) by simp
        ultimately have "item_status (?s' ! j) = last (item_status (s ! j) # status_history j s turn)"
          and "status_history j s turn = replicate (length turn) (item_status (s ! j))"
          using status_history_last [OF turn_plain] status_history_untouched by blast+
        moreover have "item_status (s ! j) = Pending"
          using Cons.prems(3) that by simp
        ultimately show ?thesis by simp
      qed
      have ih: "remdups_adj (Pending # status_history i ?s' ?rest)
          = [Pending, Processing,
             if e_status (rs' ! (i - Suc k)) = EntrySuccess then Success else ErrorStatus]"
        using Cons.IH [OF rs(2), of ?s' ] len' Cons.prems(2) keep i(1,2) by simp
      have nth: "rs ! (i - k) = rs' ! (i - Suc k)"
        unfolding rs(1) using i(1) by (simp add: Suc_diff_le)
      have "remdups_adj (Pending # status_history i s (turn @ ?rest))
              = remdups_adj (Pending # status_history i ?s' ?rest)"
        unfolding status_history_append h
          remdups_adj_segments [of Pending "replicate (length turn) Pending"]
        by (simp only: remdups_adj_stutter) (simp del: remdups_adj.simps)
      then show ?thesis
        unfolding tr ih nth by simp
    qed
  qed
  have k: "k < length s" and pk: "item_status (s ! k) = Pending"
    using Cons.prems(2,3) by simp_all
  show ?case
  proof (cases rule: run_stream_cases [of k "streams k"])
    case (still_open pr eff)
    with Cons.prems(1) show ?thesis
      unfolding process_loop_open [of k streams, OF still_open(1)] by simp
  next
    case (failed eff)
    from Cons.prems(1) obtain rs' where rs': "snd (process_loop u streams (Suc k) fs) = Some rs'"
        "rs = \<lparr>e_filename = s3_filename f, e_status = EntryError, e_chunks = Undefined,
               e_error = Val no_result_message\<rparr> # rs'"
      unfolding process_loop_failed [of k streams, OF failed(1)] by auto
    have own: "remdups_adj (Pending # status_history k s
           ([UpdateItem k MarkProcessing, OpenStream k (key f) u]
              @ snd (run_stream k (streams k) None) @ [UpdateItem k (MarkFailed no_result_message)]))
         = [Pending, Processing, ErrorStatus]"
      by (rule file_turn_status [OF k pk refl]) (simp_all add: failed(1))
    show ?thesis
      by (rule turn [OF _ refl own rs'(2,1)])
         (simp_all add: process_loop_failed [of k streams, OF failed(1)] failed(1))
  next
    case (success r eff)
    from Cons.prems(1) obtain rs' where rs': "snd (process_loop u streams (Suc k) fs) = Some rs'"
        "rs = \<lparr>e_filename = s3_filename f, e_status = EntrySuccess,
               e_chunks = chunks_created r, e_error = Undefined\<rparr> # rs'"
      unfolding process_loop_success [of k streams, OF success(1)] by auto
    have own: "remdups_adj (Pending # status_history k s
           ([UpdateItem k MarkProcessing, OpenStream k (key f) u]
              @ snd (run_stream k (streams k) None) @ [UpdateItem k (MarkSuccess r)]))
         = [Pending, Processing, Success]"
      by (rule file_turn_status [OF k pk refl]) (simp_all add: success(1))
    show ?thesis
      by (rule turn [OF _ refl own rs'(2,1)])
         (simp_all add: process_loop_success [of k streams, OF success(1)] success(1))
  qed
qed

text \<open>
  C5, as the claim states it, fails: the document parser keeps a status for each file
  of the batch, and in a run over two files the status of the second goes from pending
  to processing to success.
\<close>

theorem item_status_moves_counterexample:
  "remdups_adj (status_history 1 []
      (fst (processSelectedFiles (Val ''u1'') [key s3file0, key s3file1] [s3file0, s3file1]
              streams0 ''1.20s'')))
     = [Pending, Processing, Success]"
  by (simp add: processSelectedFiles_def filesToProcess_of_def s3file0_def s3file1_def
        streams0_def process_loop.simps(2) make_report_def Let_def status_history_def
        pending_item_def)

text \<open>
  C5, amended. The document parser tracks a processing status for each file of a batch:
  in every run that produces its report, the status of each file starts as pending,
  becomes processing, and ends as success or as error, according to the file's entry
  in the report; it takes no other value and makes no other move.
\<close>

theorem item_status_moves:
  fixes userId selectedFiles s3Files streams processingTime
  assumes "snd (processSelectedFiles userId selectedFiles s3Files streams processingTime) = Some r"
    and "i < length (filesToProcess_of selectedFiles s3Files)"
  shows "remdups_adj (status_history i []
           (fst (processSelectedFiles userId selectedFiles s3Files streams processingTime)))
         = [Pending, Processing,
            if e_status (report_files r ! i) = EntrySuccess then Success else ErrorStatus]"
proof -
  from assms(1) have u: "truthy_str userId" and sel: "selectedFiles \<noteq> []"
    by (auto simp: processSelectedFiles_def split: if_splits)
  let ?fs = "filesToProcess_of selectedFiles s3Files"
  let ?L = "process_loop (coalesce userId []) streams 0 ?fs"
  let ?items = "map pending_item ?fs"
  from assms(1) obtain rs where rs: "snd ?L = Some rs"
      and r: "r = make_report ?fs rs processingTime"
    unfolding processSelectedFiles_run(2) [OF u sel] by auto
  let ?rest = "[SetReport (make_report ?fs rs processingTime), SetIsProcessing False]"
  have tr: "fst (processSelectedFiles userId selectedFiles s3Files streams processingTime)
              = [SetIsProcessing True, SetFileItems ?items] @ fst ?L @ ?rest"
    unfolding processSelectedFiles_run(1) [OF u sel] rs by simp
  have start: "status_history i [] ([SetIsProcessing True, SetFileItems ?items] @ tr')
                 = Pending # status_history i ?items tr'" for tr'
    using assms(2) by (simp add: status_history_def pending_item_def)
  have loop: "remdups_adj (Pending # status_history i ?items (fst ?L))
                = [Pending, Processing,
                   if e_status (rs ! (i - 0)) = EntrySuccess then Success else ErrorStatus]"
    by (rule process_loop_status [OF rs]) (use assms(2) in \<open>simp_all add: pending_item_def\<close>)
  let ?final = "if e_status (rs ! i) = EntrySuccess then Success else ErrorStatus"
  have plain: "\<forall>e \<in> set (fst ?L). \<not> sets_items e"
    using process_loop_effects [of _ "coalesce userId []" streams 0 ?fs] by blast
  have i: "i < length ?items"
    using assms(2) by simp
  let ?s' = "foldl apply_parser_effect ?items (fst ?L)"
  have "last (Pending # status_history i ?items (fst ?L))
          = last (remdups_adj (Pending # status_history i ?items (fst ?L)))"
    by (simp only: last_remdups_adj)
  also have "\<dots> = ?final"
    unfolding loop by simp
  finally have l: "last (Pending # status_history i ?items (fst ?L)) = ?final" .
  have "item_status (?s' ! i) = last (item_status (?items ! i) # status_history i ?items (fst ?L))"
    by (rule status_history_last [OF plain i])
  then have st: "item_status (?s' ! i) = ?final"
    using l assms(2) by (simp add: pending_item_def)
  have len: "i < length ?s'"
    using final_length [OF plain, of ?items] i by simp
  have tail: "status_history i ?s' ?rest = replicate 2 ?final"
    using status_history_untouched [of ?rest i ?s'] len st by (simp add: numeral_2_eq_2)
  have "remdups_adj (Pending # status_history i ?items (fst ?L @ ?rest)) = [Pending, Processing, ?final]"
    unfolding status_history_append tail
      remdups_adj_segments [of Pending "status_history i ?items (fst ?L)"] l
    using loop by (simp only: remdups_adj_stutter) simp
  then show ?thesis
    unfolding tr start r by (simp add: make_report_def)
qed

theorem item_status_moves_witness:
  "remdups_adj (status_history 0 []
      (fst (processSelectedFiles (Val ''u1'') [key s3file0, key s3file1] [s3file0, s3file1]
              streams0 ''1.20s'')))
     = [Pending, Processing, ErrorStatus]"
  using item_status_moves [of "Val ''u1''" "[key s3file0, key s3file1]" "[s3file0, s3file1]"
      streams0 "''1.20s''"
      "the (snd (processSelectedFiles (Val ''u1'') [key s3file0, key s3file1]
         [s3file0, s3file1] streams0 ''1.20s''))" 0]
  by (simp add: processSelectedFiles_def filesToProcess_of_def s3file0_def s3file1_def
        streams0_def process_loop.simps(2) make_report_def Let_def)

subsection \<open>Instances\<close>



end
